theory Spec2Isabelle
  imports Main
begin

section \<open>Python string operations used by the importer\<close>

text \<open>
  The importer (\<^verbatim>\<open>awscli/customizations/configure/importer.py\<close>) works on Python 3
  \<^verbatim>\<open>str\<close> values with the built-in methods \<^verbatim>\<open>strip\<close>, \<^verbatim>\<open>lower\<close>,
  \<^verbatim>\<open>split(',')\<close>, \<^verbatim>\<open>splitlines\<close>, the \<^verbatim>\<open>in\<close> test and \<^verbatim>\<open>list.index\<close>.
  A text is modelled as a \<^typ>\<open>string\<close>, one \<^typ>\<open>char\<close> per code point, for the
  code points 0 to 255; the built-ins are written out below with the behaviour Python 3
  documents for that range.
\<close>

text \<open>
  \<^verbatim>\<open>str.isspace\<close> on one code point below 256: TAB, LF, VT, FF, CR, FS, GS, RS, US,
  SPACE, NEL (0x85) and NBSP (0xA0). This is the set \<^verbatim>\<open>str.strip()\<close> removes.
\<close>

definition is_space :: "char \<Rightarrow> bool" where
  "is_space c =
     (let n = (of_char c :: nat)
      in (9 \<le> n \<and> n \<le> 13) \<or> (28 \<le> n \<and> n \<le> 32) \<or> n = 133 \<or> n = 160)"

text \<open>\<^verbatim>\<open>s.strip()\<close>: drop leading and trailing whitespace.\<close>

definition strip :: "string \<Rightarrow> string" where
  "strip s = rev (dropWhile is_space (rev (dropWhile is_space s)))"

text \<open>
  \<^verbatim>\<open>s.lower()\<close> on code points below 256: A to Z and the Latin-1 capitals 0xC0 to 0xDE
  (without the multiplication sign 0xD7) move up by 32, everything else stays.
\<close>

definition lower_char :: "char \<Rightarrow> char" where
  "lower_char c =
     (let n = (of_char c :: nat)
      in if (65 \<le> n \<and> n \<le> 90) \<or> (192 \<le> n \<and> n \<le> 222 \<and> n \<noteq> 215)
         then char_of (n + 32) else c)"

definition lower :: "string \<Rightarrow> string" where
  "lower s = map lower_char s"

text \<open>
  \<^verbatim>\<open>s.split(sep)\<close> for a one-character separator: the fields between the separators,
  always at least one field (\<^verbatim>\<open>''.split(',') == ['']\<close>).
\<close>

fun split :: "char \<Rightarrow> string \<Rightarrow> string list" where
  "split sep [] = [[]]"
| "split sep (c # cs) =
     (if c = sep then [] # split sep cs
      else (case split sep cs of
              [] \<Rightarrow> [[c]]
            | w # ws \<Rightarrow> (c # w) # ws))"

text \<open>
  \<^verbatim>\<open>s.splitlines()\<close>: lines are ended by LF, CR, CR LF, VT, FF, FS, GS, RS and NEL;
  the terminators are dropped, and a terminator at the very end does not open a further,
  empty line (\<^verbatim>\<open>'a\n'.splitlines() == ['a']\<close>, \<^verbatim>\<open>''.splitlines() == []\<close>).
\<close>

definition is_linebreak :: "char \<Rightarrow> bool" where
  "is_linebreak c =
     (let n = (of_char c :: nat)
      in (10 \<le> n \<and> n \<le> 13) \<or> (28 \<le> n \<and> n \<le> 30) \<or> n = 133)"

fun splitlines :: "string \<Rightarrow> string list" where
  "splitlines [] = []"
| "splitlines (c # cs) =
     (if c = CHR 0x0D \<and> cs \<noteq> [] \<and> hd cs = CHR 0x0A then [] # splitlines (tl cs)
      else if is_linebreak c then [] # splitlines cs
      else (case splitlines cs of
              [] \<Rightarrow> [[c]]
            | l # ls \<Rightarrow> (c # l) # ls))"

section \<open>Errors\<close>

text \<open>
  \<^verbatim>\<open>CredentialParserError\<close> is raised with one of four messages; each is a constructor
  carrying what the message template is filled with:
  \<^item> \<open>EmptyCSV\<close>: \<^verbatim>\<open>_EMPTY_CSV\<close>;
  \<^item> \<open>HeaderNotFound h\<close>: \<^verbatim>\<open>_HEADER_NOT_FOUND % h\<close>;
  \<^item> \<open>InvalidUsername n\<close>: \<^verbatim>\<open>_INVALID_USERNAME % n\<close>;
  \<^item> \<open>InvalidSecret n\<close>: \<^verbatim>\<open>_INVALID_SECRET % n\<close>.
  \<open>IndexError\<close> and \<open>ValueError\<close> are the Python built-in exceptions of list indexing,
  of \<^verbatim>\<open>list.index\<close> and of tuple unpacking.
\<close>

datatype error =
    EmptyCSV
  | HeaderNotFound string
  | InvalidUsername nat
  | InvalidSecret nat
  | IndexError
  | ValueError

text \<open>\<^verbatim>\<open>xs[i]\<close> for a non-negative index.\<close>

definition item :: "'a list \<Rightarrow> nat \<Rightarrow> error + 'a" where
  "item xs i = (if i < length xs then Inr (xs ! i) else Inl IndexError)"

text \<open>\<^verbatim>\<open>xs.index(x)\<close>: the first position of \<open>x\<close>, \<^verbatim>\<open>ValueError\<close> when absent.\<close>

fun index :: "'a list \<Rightarrow> 'a \<Rightarrow> error + nat" where
  "index [] x = Inl ValueError"
| "index (y # ys) x =
     (if y = x then Inr 0
      else (case index ys x of Inl e \<Rightarrow> Inl e | Inr i \<Rightarrow> Inr (Suc i)))"

section \<open>CSVCredentialParser\<close>

text \<open>The parser object: its only attribute is \<^verbatim>\<open>strict\<close> (line 97).\<close>

record CSVCredentialParser =
  strict :: bool

type_synonym credential = "string \<times> string \<times> string"

definition USERNAME_HEADER :: string where
  "USERNAME_HEADER = ''User Name''"

definition AKID_HEADER :: string where
  "AKID_HEADER = ''Access Key ID''"

definition SAK_HEADER :: string where
  "SAK_HEADER = ''Secret Access key''"

definition EXPECTED_HEADERS :: "string list" where
  "EXPECTED_HEADERS = [USERNAME_HEADER, AKID_HEADER, SAK_HEADER]"

text \<open>\<^verbatim>\<open>_format_header\<close> (lines 99-100).\<close>

definition format_header :: "string \<Rightarrow> string" where
  "format_header header = strip (lower header)"

text \<open>
  The loop of \<^verbatim>\<open>_parse_csv_headers\<close> (lines 106-110) over the expected headers still to
  do, with the list \<^verbatim>\<open>indices\<close> built so far.
\<close>

fun parse_csv_headers_loop :: "string list \<Rightarrow> nat list \<Rightarrow> string list \<Rightarrow> error + nat list" where
  "parse_csv_headers_loop parsed_headers indices [] = Inr indices"
| "parse_csv_headers_loop parsed_headers indices (header # rest) =
     (let formatted_header = format_header header
      in if formatted_header \<notin> set parsed_headers then Inl (HeaderNotFound header)
         else (case index parsed_headers formatted_header of
                 Inl e \<Rightarrow> Inl e
               | Inr i \<Rightarrow> parse_csv_headers_loop parsed_headers (indices @ [i]) rest))"

text \<open>\<^verbatim>\<open>_parse_csv_headers\<close> (lines 102-112).\<close>

definition parse_csv_headers :: "string \<Rightarrow> error + nat list" where
  "parse_csv_headers header =
     (let parsed_headers = map format_header (split CHR '','' header)
      in parse_csv_headers_loop parsed_headers [] EXPECTED_HEADERS)"

text \<open>
  One pass through the body of the \<^verbatim>\<open>for\<close> loop of \<^verbatim>\<open>_parse_csv_rows\<close> (lines
  121-135), for the row \<open>user\<close> with \<open>count\<close> already incremented: an exception, or
  \<open>None\<close> for \<^verbatim>\<open>continue\<close>, or the credential that is appended.
\<close>

definition parse_csv_row ::
  "'a CSVCredentialParser_scheme \<Rightarrow> nat \<Rightarrow> nat \<Rightarrow> nat \<Rightarrow> nat \<Rightarrow> string
     \<Rightarrow> error + credential option" where
  "parse_csv_row self username_index akid_index sak_index count user =
     (let cols = split CHR '','' user
      in case item cols username_index of Inl e \<Rightarrow> Inl e | Inr c1 \<Rightarrow>
         (case item cols akid_index of Inl e \<Rightarrow> Inl e | Inr c2 \<Rightarrow>
         (case item cols sak_index of Inl e \<Rightarrow> Inl e | Inr c3 \<Rightarrow>
         (let username = strip c1; akid = strip c2; sak = strip c3
          in if username = [] then
               (if strict self then Inl (InvalidUsername count) else Inr None)
             else if akid = [] \<or> sak = [] then
               (if strict self then Inl (InvalidSecret count) else Inr None)
             else Inr (Some (username, akid, sak))))))"

text \<open>
  The \<^verbatim>\<open>for\<close> loop of \<^verbatim>\<open>_parse_csv_rows\<close> (lines 119-137) over the rows still to do,
  with the counter and the list \<^verbatim>\<open>credentials\<close> as they stand.
\<close>

fun parse_csv_rows_loop ::
  "'a CSVCredentialParser_scheme \<Rightarrow> nat \<Rightarrow> nat \<Rightarrow> nat \<Rightarrow> nat \<Rightarrow> credential list
     \<Rightarrow> string list \<Rightarrow> error + credential list" where
  "parse_csv_rows_loop self ui ai si count credentials [] = Inr credentials"
| "parse_csv_rows_loop self ui ai si count credentials (user # rows) =
     (case parse_csv_row self ui ai si (count + 1) user of
        Inl e \<Rightarrow> Inl e
      | Inr None \<Rightarrow> parse_csv_rows_loop self ui ai si (count + 1) credentials rows
      | Inr (Some cred) \<Rightarrow>
          parse_csv_rows_loop self ui ai si (count + 1) (credentials @ [cred]) rows)"

text \<open>
  \<^verbatim>\<open>_parse_csv_rows\<close> (lines 114-137). Unpacking \<^verbatim>\<open>headers\<close> into three names raises
  \<^verbatim>\<open>ValueError\<close> unless it has exactly three elements.
\<close>

definition parse_csv_rows ::
  "'a CSVCredentialParser_scheme \<Rightarrow> string list \<Rightarrow> nat list \<Rightarrow> error + credential list" where
  "parse_csv_rows self rows headers =
     (case headers of
        [username_index, akid_index, sak_index] \<Rightarrow>
          parse_csv_rows_loop self username_index akid_index sak_index 0 [] rows
      | _ \<Rightarrow> Inl ValueError)"

text \<open>\<^verbatim>\<open>_parse_csv\<close> (lines 139-151); \<^verbatim>\<open>lines[0]\<close> of an empty list raises.\<close>

definition parse_csv :: "'a CSVCredentialParser_scheme \<Rightarrow> string \<Rightarrow> error + credential list" where
  "parse_csv self csv =
     (if strip csv = [] then Inl EmptyCSV
      else (let lines = splitlines csv
            in case item lines 0 of
                 Inl e \<Rightarrow> Inl e
               | Inr header \<Rightarrow>
                   (case parse_csv_headers header of
                      Inl e \<Rightarrow> Inl e
                    | Inr parsed_headers \<Rightarrow> parse_csv_rows self (drop 1 lines) parsed_headers)))"

text \<open>\<^verbatim>\<open>parse_credentials\<close> (lines 153-154).\<close>

definition parse_credentials ::
  "'a CSVCredentialParser_scheme \<Rightarrow> string \<Rightarrow> error + credential list" where
  "parse_credentials self contents = parse_csv self contents"

section \<open>Vocabulary of the statements about the parser\<close>

text \<open>
  The definitions of this section are not code of the importer: they name what the
  statements below speak about. \<open>parsed_headers\<close> is the list of that name in
  \<^verbatim>\<open>_parse_csv_headers\<close> (line 104): the header row split on commas, each cell
  lower-cased and trimmed.
\<close>

definition parsed_headers :: "string \<Rightarrow> string list" where
  "parsed_headers header = map format_header (split CHR '','' header)"

text \<open>
  The header row holds every expected label, compared as \<^verbatim>\<open>_parse_csv_headers\<close>
  compares them: both sides lower-cased and trimmed.
\<close>

definition has_headers :: "string \<Rightarrow> bool" where
  "has_headers header \<longleftrightarrow>
     (\<forall>h\<in>set EXPECTED_HEADERS. format_header h \<in> set (parsed_headers header))"

text \<open>\<open>first_at xs i x\<close>: position \<open>i\<close> is the first one of \<open>xs\<close> that holds \<open>x\<close>.\<close>

definition first_at :: "'a list \<Rightarrow> nat \<Rightarrow> 'a \<Rightarrow> bool" where
  "first_at xs i x \<longleftrightarrow> i < length xs \<and> xs ! i = x \<and> x \<notin> set (take i xs)"

text \<open>The comma-separated columns of a data row (\<^verbatim>\<open>cols\<close>, line 121).\<close>

definition cols :: "string \<Rightarrow> string list" where
  "cols user = split CHR '','' user"

text \<open>The row has a column at each of the three recorded positions.\<close>

definition has_columns :: "nat \<Rightarrow> nat \<Rightarrow> nat \<Rightarrow> string \<Rightarrow> bool" where
  "has_columns ui ai si user \<longleftrightarrow>
     ui < length (cols user) \<and> ai < length (cols user) \<and> si < length (cols user)"

text \<open>The three fields of a row at the recorded positions, trimmed.\<close>

definition username_of :: "nat \<Rightarrow> string \<Rightarrow> string" where
  "username_of ui user = strip (cols user ! ui)"

definition akid_of :: "nat \<Rightarrow> string \<Rightarrow> string" where
  "akid_of ai user = strip (cols user ! ai)"

definition sak_of :: "nat \<Rightarrow> string \<Rightarrow> string" where
  "sak_of si user = strip (cols user ! si)"

definition trimmed_fields :: "nat \<Rightarrow> nat \<Rightarrow> nat \<Rightarrow> string \<Rightarrow> credential" where
  "trimmed_fields ui ai si user = (username_of ui user, akid_of ai user, sak_of si user)"

text \<open>A row with all three columns present and non-empty after trimming.\<close>

definition complete :: "nat \<Rightarrow> nat \<Rightarrow> nat \<Rightarrow> string \<Rightarrow> bool" where
  "complete ui ai si user \<longleftrightarrow>
     has_columns ui ai si user \<and> username_of ui user \<noteq> [] \<and> akid_of ai user \<noteq> []
       \<and> sak_of si user \<noteq> []"

section \<open>ConfigFileWriter and CredentialImporter\<close>

text \<open>
  Modelled from the spec: \<^verbatim>\<open>ConfigFileWriter.update_config\<close>
  (\<^verbatim>\<open>awscli/customizations/configure/writer.py\<close>), which \<^verbatim>\<open>import_credential\<close> calls
  on line 168, is not among the sources. Section 4.2 of the specification describes it
  as \<^verbatim>\<open>updateSection(profile, filePath)\<close>, and sections 3 and 6 describe the file: a
  sequence of lines, each a section header, a \<^verbatim>\<open>key = value\<close> line, or anything else
  (blank lines and comments). The specification leaves the concrete syntax open
  ("\<^verbatim>\<open>[profile <name>]\<close> or equivalent bracket-delimited section syntax"), so a line is
  modelled by what the algorithm reads of it:
  \<^item> \<open>Header name\<close>: a section header line for the section \<open>name\<close>;
  \<^item> \<open>KeyValue indent key sep val\<close>: a \<^verbatim>\<open>key = value\<close> line, with the text before
    the key token, the key token, the text between key token and value, and the value;
  \<^item> \<open>Other text\<close>: any other line, kept verbatim.
  Two lines are byte-identical exactly when they are equal.
\<close>

datatype line =
    Header string
  | KeyValue string string string string
  | Other string

type_synonym config_file = "line list"

text \<open>
  Modelled from the spec: the ConfigProfile of section 3, a section name and
  key-value pairs in the profile's field order. In the Python it is a dictionary whose
  entry \<^verbatim>\<open>__section__\<close> is the section name; the other entries are the pairs, so
  their keys are pairwise distinct.
\<close>

record ConfigProfile =
  sectionName :: string
  keyValues :: "(string \<times> string) list"

text \<open>Modelled from the spec: "a section header line is recognized" (step 2).\<close>

fun is_header :: "line \<Rightarrow> bool" where
  "is_header (Header name) = True"
| "is_header l = False"

text \<open>Modelled from the spec: a blank line is a line of whitespace only.\<close>

fun is_blank :: "line \<Rightarrow> bool" where
  "is_blank (Other text) = (strip text = [])"
| "is_blank l = False"

text \<open>
  Modelled from the spec: a new line in the "canonical two-space-indent,
  \<^verbatim>\<open> = \<close>-separated style" (section 4.2, step 3).
\<close>

definition new_line :: "string \<Rightarrow> string \<Rightarrow> line" where
  "new_line k v = KeyValue ''  '' k '' = '' v"

text \<open>
  Modelled from the spec (section 4.2, step 3), for one key of the profile and the lines
  of the section's span: the first line whose key token is the key gets the new value in
  place, everything else of the line kept; when no line has the key, a new line is
  appended at the end of the span.
\<close>

fun update_key :: "string \<Rightarrow> string \<Rightarrow> line list \<Rightarrow> line list" where
  "update_key k v [] = [new_line k v]"
| "update_key k v (KeyValue ind k' sep v' # ls) =
     (if k' = k then KeyValue ind k' sep v # ls
      else KeyValue ind k' sep v' # update_key k v ls)"
| "update_key k v (l # ls) = l # update_key k v ls"

text \<open>Modelled from the spec (step 3): "for each key in profile", in field order.\<close>

fun update_keys :: "(string \<times> string) list \<Rightarrow> line list \<Rightarrow> line list" where
  "update_keys [] span = span"
| "update_keys ((k, v) # kvs) span = update_keys kvs (update_key k v span)"

text \<open>
  Modelled from the spec (steps 2 and 3): scan the lines for the first header of the
  section; its span is every line after that header up to, not including, the next
  section header line or the end of the file. \<open>None\<close> when the section does not exist.
\<close>

fun update_section :: "string \<Rightarrow> (string \<times> string) list \<Rightarrow> config_file \<Rightarrow> config_file option" where
  "update_section name kvs [] = None"
| "update_section name kvs (l # ls) =
     (if l = Header name
      then Some (l # update_keys kvs (takeWhile (\<lambda>x. \<not> is_header x) ls)
                   @ dropWhile (\<lambda>x. \<not> is_header x) ls)
      else map_option ((#) l) (update_section name kvs ls))"

text \<open>
  Modelled from the spec (step 4): the new section at the end of the file, after a blank
  separator line if the file is non-empty and does not already end with a blank line.
\<close>

definition append_section :: "string \<Rightarrow> (string \<times> string) list \<Rightarrow> config_file \<Rightarrow> config_file" where
  "append_section name kvs f =
     f @ (if f \<noteq> [] \<and> \<not> is_blank (last f) then [Other []] else [])
       @ Header name # map (\<lambda>(k, v). new_line k v) kvs"

text \<open>Modelled from the spec (steps 2 to 4): the merged content.\<close>

definition merge_profile :: "ConfigProfile \<Rightarrow> config_file \<Rightarrow> config_file" where
  "merge_profile profile f =
     (case update_section (sectionName profile) (keyValues profile) f of
        Some f' \<Rightarrow> f'
      | None \<Rightarrow> append_section (sectionName profile) (keyValues profile) f)"

text \<open>
  Modelled from the spec (steps 1 and 5): the storage maps a path to the content of the
  file there; a file that does not exist reads as empty; the merged content replaces
  the file's content. Failures of the storage itself are outside the model.
\<close>

type_synonym storage = "string \<rightharpoonup> config_file"

definition update_config :: "ConfigProfile \<Rightarrow> string \<Rightarrow> storage \<Rightarrow> storage" where
  "update_config profile filePath fs =
     (let content = (case fs filePath of None \<Rightarrow> [] | Some f \<Rightarrow> f)
      in fs(filePath \<mapsto> merge_profile profile content))"

text \<open>
  \<^verbatim>\<open>CredentialImporter.import_credential\<close> (lines 161-168): the profile built from the
  credential, handed to the writer.
\<close>

definition import_credential :: "credential \<Rightarrow> string \<Rightarrow> storage \<Rightarrow> storage" where
  "import_credential credential credentials_file fs =
     (case credential of (name, akid, sak) \<Rightarrow>
        update_config
          \<lparr>sectionName = name,
           keyValues = [(''aws_access_key_id'', akid), (''aws_secret_access_key'', sak)]\<rparr>
          credentials_file fs)"

section \<open>Vocabulary of the statements about the writer\<close>

text \<open>The value of the first line with key token \<open>k\<close> among the lines, if there is one.\<close>

fun first_value :: "string \<Rightarrow> line list \<Rightarrow> string option" where
  "first_value k [] = None"
| "first_value k (KeyValue ind k' sep v # ls) = (if k' = k then Some v else first_value k ls)"
| "first_value k (l # ls) = first_value k ls"

text \<open>
  The same line with the value \<open>v\<close>: of a \<^verbatim>\<open>key = value\<close> line only the value text
  differs, any other line is unchanged.
\<close>

fun set_value :: "string \<Rightarrow> line \<Rightarrow> line" where
  "set_value v (KeyValue ind k sep v') = KeyValue ind k sep v"
| "set_value v l = l"

text \<open>The key token of a line, if it is a \<^verbatim>\<open>key = value\<close> line.\<close>

fun key_of :: "line \<Rightarrow> string option" where
  "key_of (KeyValue ind k sep v) = Some k"
| "key_of l = None"

section \<open>Strings and lists\<close>

lemma split_not_Nil: "split sep s \<noteq> []"
  by (induction s) (auto split: list.splits)

lemma strip_Nil_iff: "strip s = [] \<longleftrightarrow> (\<forall>c\<in>set s. is_space c)"
proof
  assume "strip s = []"
  then have "dropWhile is_space (rev (dropWhile is_space s)) = []"
    by (simp add: strip_def)
  then have "\<forall>c\<in>set (rev (dropWhile is_space s)). is_space c"
    by (simp only: dropWhile_eq_Nil_conv)
  then have a: "\<forall>c\<in>set (dropWhile is_space s). is_space c"
    by simp
  have "dropWhile is_space s = []"
  proof (rule ccontr)
    assume n: "dropWhile is_space s \<noteq> []"
    then have "\<not> is_space (hd (dropWhile is_space s))" by (simp add: hd_dropWhile)
    moreover have "hd (dropWhile is_space s) \<in> set (dropWhile is_space s)" using n by simp
    ultimately show False using a by blast
  qed
  then show "\<forall>c\<in>set s. is_space c" by simp
next
  assume "\<forall>c\<in>set s. is_space c"
  then show "strip s = []" by (auto simp: strip_def dest: set_dropWhileD)
qed

lemma set_split: "w \<in> set (split sep s) \<Longrightarrow> set w \<subseteq> set s"
proof (induction s arbitrary: w)
  case Nil
  then show ?case by simp
next
  case (Cons c cs)
  show ?case
  proof (cases "c = sep")
    case True
    with Cons show ?thesis by auto
  next
    case False
    obtain v vs where vs: "split sep cs = v # vs"
      by (cases "split sep cs") (auto simp: split_not_Nil)
    with Cons.prems False have "w = c # v \<or> w \<in> set vs" by simp
    moreover have "set v \<subseteq> set cs" using Cons.IH vs by simp
    moreover have "w \<in> set vs \<Longrightarrow> set w \<subseteq> set cs" using Cons.IH vs by simp
    ultimately show ?thesis by auto
  qed
qed

lemma set_splitlines: "l \<in> set (splitlines s) \<Longrightarrow> set l \<subseteq> set s"
proof (induction s arbitrary: l rule: splitlines.induct)
  case 1
  then show ?case by simp
next
  case (2 c cs)
  show ?case
  proof (cases "c = CHR 0x0D \<and> cs \<noteq> [] \<and> hd cs = CHR 0x0A")
    case True
    with 2 have "l = [] \<or> set l \<subseteq> set (tl cs)" by auto
    moreover have "set (tl cs) \<subseteq> set cs" using True by (cases cs) auto
    ultimately show ?thesis by auto
  next
    case False
    show ?thesis
    proof (cases "is_linebreak c")
      case True
      with 2 False show ?thesis by auto
    next
      case nb: False
      show ?thesis
      proof (cases "splitlines cs")
        case Nil
        with 2 False nb show ?thesis by auto
      next
        case (Cons v vs)
        with 2(4) False nb have "l = c # v \<or> l \<in> set vs" by auto
        moreover have "set v \<subseteq> set cs" using 2(3) False nb Cons by simp
        moreover have "l \<in> set vs \<Longrightarrow> set l \<subseteq> set cs" using 2(3) False nb Cons by simp
        ultimately show ?thesis by auto
      qed
    qed
  qed
qed

lemma splitlines_Nil_iff: "splitlines s = [] \<longleftrightarrow> s = []"
  by (cases s) (auto split: list.splits)

lemma lower_char_space: "is_space c \<Longrightarrow> lower_char c = c"
  by (auto simp: is_space_def lower_char_def Let_def)

lemma format_header_blank:
  assumes "\<forall>c\<in>set w. is_space c"
  shows "format_header w = []"
proof -
  have "lower w = w"
    unfolding lower_def using assms by (simp add: lower_char_space map_idI)
  then show ?thesis
    using assms by (simp add: format_header_def strip_Nil_iff)
qed

lemma index_eq:
  "index xs x = (if x \<in> set xs then Inr (length (takeWhile (\<lambda>y. y \<noteq> x) xs)) else Inl ValueError)"
  by (induction xs) auto

lemma parse_csv_headers_loop_eq:
  "parse_csv_headers_loop ph acc hs =
     (case List.find (\<lambda>h. format_header h \<notin> set ph) hs of
        Some h \<Rightarrow> Inl (HeaderNotFound h)
      | None \<Rightarrow> Inr (acc @ map (\<lambda>h. length (takeWhile (\<lambda>y. y \<noteq> format_header h) ph)) hs))"
  by (induction hs arbitrary: acc) (auto simp: index_eq Let_def split: option.splits)

lemma fmt_username: "format_header USERNAME_HEADER = ''user name''"
  by code_simp

lemma fmt_akid: "format_header AKID_HEADER = ''access key id''"
  by code_simp

lemma fmt_sak: "format_header SAK_HEADER = ''secret access key''"
  by code_simp

section \<open>Facts about the parser\<close>

lemma parse_csv_row_eq:
  "parse_csv_row self ui ai si n user =
     (if \<not> has_columns ui ai si user then Inl IndexError
      else if username_of ui user = [] then
        (if strict self then Inl (InvalidUsername n) else Inr None)
      else if akid_of ai user = [] \<or> sak_of si user = [] then
        (if strict self then Inl (InvalidSecret n) else Inr None)
      else Inr (Some (trimmed_fields ui ai si user)))"
  by (simp add: parse_csv_row_def item_def has_columns_def cols_def username_of_def
      akid_of_def sak_of_def trimmed_fields_def Let_def)

lemma parse_csv_rows_loop_append:
  "parse_csv_rows_loop self ui ai si n cs (xs @ ys) =
     (case parse_csv_rows_loop self ui ai si n cs xs of
        Inl e \<Rightarrow> Inl e
      | Inr cs' \<Rightarrow> parse_csv_rows_loop self ui ai si (n + length xs) cs' ys)"
  by (induction xs arbitrary: n cs) (auto split: sum.splits option.splits)

lemma parse_csv_rows_loop_complete:
  assumes "\<forall>r\<in>set rows. complete ui ai si r"
  shows "parse_csv_rows_loop self ui ai si n cs rows = Inr (cs @ map (trimmed_fields ui ai si) rows)"
  using assms
  by (induction rows arbitrary: n cs) (auto simp: parse_csv_row_eq complete_def)

lemma parse_csv_rows_loop_lenient:
  assumes "\<not> strict self" and "\<forall>r\<in>set rows. has_columns ui ai si r"
  shows "parse_csv_rows_loop self ui ai si n cs rows =
           Inr (cs @ map (trimmed_fields ui ai si) (filter (complete ui ai si) rows))"
  using assms
  by (induction rows arbitrary: n cs) (auto simp: parse_csv_row_eq complete_def)

lemma parse_csv_rows_loop_error:
  assumes "parse_csv_rows_loop self ui ai si n cs rows = Inl e"
  shows "e = IndexError \<or> (\<exists>k. e = InvalidUsername k) \<or> (\<exists>k. e = InvalidSecret k)"
  using assms
  by (induction rows arbitrary: n cs)
     (auto simp: parse_csv_row_eq split: sum.splits option.splits if_splits)

lemma parse_csv_rows_error:
  assumes "parse_csv_rows self rows hs = Inl e"
  shows "e = IndexError \<or> e = ValueError \<or> (\<exists>k. e = InvalidUsername k) \<or> (\<exists>k. e = InvalidSecret k)"
  using assms parse_csv_rows_loop_error
  by (fastforce simp: parse_csv_rows_def split: list.splits)

lemma parse_csv_headers_eq:
  "parse_csv_headers header =
     (if ''user name'' \<notin> set (parsed_headers header) then Inl (HeaderNotFound ''User Name'')
      else if ''access key id'' \<notin> set (parsed_headers header)
        then Inl (HeaderNotFound ''Access Key ID'')
      else if ''secret access key'' \<notin> set (parsed_headers header)
        then Inl (HeaderNotFound ''Secret Access key'')
      else Inr [length (takeWhile (\<lambda>y. y \<noteq> ''user name'') (parsed_headers header)),
                length (takeWhile (\<lambda>y. y \<noteq> ''access key id'') (parsed_headers header)),
                length (takeWhile (\<lambda>y. y \<noteq> ''secret access key'') (parsed_headers header))])"
  using fmt_username fmt_akid fmt_sak
  by (simp add: parse_csv_headers_def parsed_headers_def parse_csv_headers_loop_eq
      EXPECTED_HEADERS_def USERNAME_HEADER_def AKID_HEADER_def SAK_HEADER_def Let_def)

lemma first_at_takeWhile:
  assumes "x \<in> set xs"
  shows "first_at xs (length (takeWhile (\<lambda>y. y \<noteq> x) xs)) x"
  using assms by (induction xs) (auto simp: first_at_def)

lemma parsed_headers_blank:
  assumes "\<forall>c\<in>set header. is_space c"
  shows "set (parsed_headers header) \<subseteq> {[]}"
proof
  fix w assume "w \<in> set (parsed_headers header)"
  then obtain v where v: "v \<in> set (split CHR '','' header)" and w: "w = format_header v"
    by (auto simp: parsed_headers_def)
  have "\<forall>c\<in>set v. is_space c" using set_split[OF v] assms by blast
  then show "w \<in> {[]}" using w by (simp add: format_header_blank)
qed

lemma parse_csv_headers_Inr_not_blank:
  assumes "parse_csv_headers header = Inr hs" and "header \<in> set (splitlines csv)"
  shows "strip csv \<noteq> []"
proof
  assume "strip csv = []"
  then have "\<forall>c\<in>set csv. is_space c" by (simp add: strip_Nil_iff)
  then have "\<forall>c\<in>set header. is_space c" using set_splitlines[OF assms(2)] by blast
  then have "''user name'' \<notin> set (parsed_headers header)"
    using parsed_headers_blank by fastforce
  then show False using assms(1) by (simp add: parse_csv_headers_eq)
qed

lemma parse_credentials_rows:
  assumes "splitlines csv = header # rows" and "parse_csv_headers header = Inr hs"
  shows "parse_credentials self csv = parse_csv_rows self rows hs"
proof -
  have "strip csv \<noteq> []"
    using parse_csv_headers_Inr_not_blank[OF assms(2), of csv] assms(1) by simp
  then show ?thesis
    using assms by (simp add: parse_credentials_def parse_csv_def item_def)
qed

lemma has_headers_iff:
  "has_headers header \<longleftrightarrow>
     ''user name'' \<in> set (parsed_headers header) \<and>
     ''access key id'' \<in> set (parsed_headers header) \<and>
     ''secret access key'' \<in> set (parsed_headers header)"
  using fmt_username fmt_akid fmt_sak
  by (simp add: has_headers_def EXPECTED_HEADERS_def)

lemma parse_csv_error_cases:
  assumes "strip csv \<noteq> []" and "parse_csv self csv = Inl e"
  shows "e = IndexError \<or> e = ValueError \<or> (\<exists>h. e = HeaderNotFound h)
           \<or> (\<exists>k. e = InvalidUsername k) \<or> (\<exists>k. e = InvalidSecret k)"
proof (cases "item (splitlines csv) 0")
  case (Inl e')
  then show ?thesis using assms by (auto simp: parse_csv_def item_def split: if_splits)
next
  case header: (Inr header)
  show ?thesis
  proof (cases "parse_csv_headers header")
    case (Inl e')
    then have "\<exists>h. e' = HeaderNotFound h"
      by (auto simp: parse_csv_headers_eq split: if_splits)
    then show ?thesis using assms header Inl by (auto simp: parse_csv_def)
  next
    case (Inr hs)
    then have "parse_csv_rows self (drop 1 (splitlines csv)) hs = Inl e"
      using assms header by (simp add: parse_csv_def)
    then show ?thesis using parse_csv_rows_error by blast
  qed
qed

lemma parse_csv_rows_loop_first_bad:
  assumes "k < length rows" and "\<forall>j<k. complete ui ai si (rows ! j)"
  shows "parse_csv_rows_loop self ui ai si 0 [] rows =
           (case parse_csv_row self ui ai si (k + 1) (rows ! k) of
              Inl e \<Rightarrow> Inl e
            | Inr None \<Rightarrow>
                parse_csv_rows_loop self ui ai si (k + 1)
                  (map (trimmed_fields ui ai si) (take k rows)) (drop (Suc k) rows)
            | Inr (Some cred) \<Rightarrow>
                parse_csv_rows_loop self ui ai si (k + 1)
                  (map (trimmed_fields ui ai si) (take k rows) @ [cred]) (drop (Suc k) rows))"
proof -
  have rows: "rows = take k rows @ rows ! k # drop (Suc k) rows"
    using assms(1) by (simp add: id_take_nth_drop)
  have "\<forall>r\<in>set (take k rows). complete ui ai si r"
    using assms by (auto simp: in_set_conv_nth)
  then have pre: "parse_csv_rows_loop self ui ai si 0 [] (take k rows) =
      Inr (map (trimmed_fields ui ai si) (take k rows))"
    by (simp add: parse_csv_rows_loop_complete)
  have "parse_csv_rows_loop self ui ai si 0 [] (take k rows @ rows ! k # drop (Suc k) rows) =
      parse_csv_rows_loop self ui ai si k (map (trimmed_fields ui ai si) (take k rows))
        (rows ! k # drop (Suc k) rows)"
    using assms(1) by (simp add: parse_csv_rows_loop_append pre)
  then show ?thesis using rows by simp
qed

lemma is_linebreak_LF: "is_linebreak (CHR 0x0A)"
  by (simp add: is_linebreak_def)

lemma is_linebreak_CR: "is_linebreak (CHR 0x0D)"
  by (simp add: is_linebreak_def)

lemma splitlines_append_LF:
  assumes "s \<noteq> []" and "\<not> is_linebreak (last s) \<or> last s = CHR 0x0D"
  shows "splitlines (s @ [CHR 0x0A]) = splitlines s"
  using assms
proof (induction s rule: splitlines.induct)
  case 1
  then show ?case by simp
next
  case (2 c cs)
  show ?case
  proof (cases "cs = []")
    case True
    show ?thesis
    proof (cases "c = CHR 0x0D")
      case cr: True
      show ?thesis unfolding True cr by (simp add: is_linebreak_CR is_linebreak_LF)
    next
      case False
      then have "\<not> is_linebreak c" using "2.prems" True by simp
      then show ?thesis unfolding True using False by (simp add: is_linebreak_LF)
    qed
  next
    case False
    then have l: "\<not> is_linebreak (last cs) \<or> last cs = CHR 0x0D"
      using "2.prems" by simp
    have hd: "hd (cs @ [CHR 0x0A]) = hd cs" using False by simp
    show ?thesis
    proof (cases "c = CHR 0x0D \<and> hd cs = CHR 0x0A")
      case True
      have "tl cs \<noteq> []"
      proof
        assume "tl cs = []"
        then have "cs = [CHR 0x0A]" using False True by (cases cs) auto
        then show False using l by (simp add: is_linebreak_LF)
      qed
      moreover have "last (tl cs) = last cs" using calculation False by (simp add: last_tl)
      ultimately have "splitlines (tl cs @ [CHR 0x0A]) = splitlines (tl cs)"
        using "2.IH"(1) True False l by simp
      then show ?thesis using True False by simp
    next
      case nocrlf: False
      show ?thesis
      proof (cases "is_linebreak c")
        case True
        then have "splitlines (cs @ [CHR 0x0A]) = splitlines cs"
          using "2.IH"(2) nocrlf False l by simp
        then show ?thesis using True nocrlf False by auto
      next
        case nb: False
        then have "splitlines (cs @ [CHR 0x0A]) = splitlines cs"
          using "2.IH"(3) nocrlf False l by simp
        then show ?thesis using nb nocrlf False by auto
      qed
    qed
  qed
qed

section \<open>Facts about the writer\<close>

lemma update_key_fixed: "first_value k ls = Some v \<Longrightarrow> update_key k v ls = ls"
  by (induction k v ls rule: update_key.induct) (auto split: if_splits)

lemma first_value_update_key_same: "first_value k (update_key k v ls) = Some v"
  by (induction k v ls rule: update_key.induct) (auto simp: new_line_def)

lemma first_value_update_key_other:
  "k \<noteq> k' \<Longrightarrow> first_value k (update_key k' v' ls) = first_value k ls"
  by (induction k' v' ls rule: update_key.induct) (auto simp: new_line_def)

lemma first_value_update_keys_other:
  "k \<notin> fst ` set kvs \<Longrightarrow> first_value k (update_keys kvs ls) = first_value k ls"
  by (induction kvs ls rule: update_keys.induct) (auto simp: first_value_update_key_other)

lemma first_value_update_keys:
  "distinct (map fst kvs) \<Longrightarrow> (k, v) \<in> set kvs \<Longrightarrow> first_value k (update_keys kvs ls) = Some v"
proof (induction kvs ls rule: update_keys.induct)
  case (1 span)
  then show ?case by simp
next
  case (2 k1 v1 kvs span)
  show ?case
  proof (cases "(k, v) = (k1, v1)")
    case True
    then have "k \<notin> fst ` set kvs" using "2.prems"(1) by auto
    then show ?thesis
      using True by (simp add: first_value_update_keys_other first_value_update_key_same)
  next
    case False
    then have "(k, v) \<in> set kvs" using "2.prems"(2) by auto
    then show ?thesis using "2.IH" "2.prems"(1) by simp
  qed
qed

lemma update_keys_fixed:
  "(\<And>k v. (k, v) \<in> set kvs \<Longrightarrow> first_value k ls = Some v) \<Longrightarrow> update_keys kvs ls = ls"
  by (induction kvs ls rule: update_keys.induct) (auto simp: update_key_fixed)

lemma update_keys_idem:
  assumes "distinct (map fst kvs)"
  shows "update_keys kvs (update_keys kvs ls) = update_keys kvs ls"
  by (rule update_keys_fixed) (rule first_value_update_keys[OF assms])

lemma update_key_no_header:
  "\<forall>l\<in>set ls. \<not> is_header l \<Longrightarrow> \<forall>l\<in>set (update_key k v ls). \<not> is_header l"
  by (induction k v ls rule: update_key.induct) (auto simp: new_line_def)

lemma update_keys_no_header:
  "\<forall>l\<in>set ls. \<not> is_header l \<Longrightarrow> \<forall>l\<in>set (update_keys kvs ls). \<not> is_header l"
  by (induction kvs ls rule: update_keys.induct) (auto simp: update_key_no_header)

lemma takeWhile_span:
  assumes "\<forall>l\<in>set span. \<not> is_header l" and "rest = [] \<or> is_header (hd rest)"
  shows "takeWhile (\<lambda>x. \<not> is_header x) (span @ rest) = span"
    and "dropWhile (\<lambda>x. \<not> is_header x) (span @ rest) = rest"
proof -
  have t: "takeWhile (\<lambda>x. \<not> is_header x) rest = []" and d: "dropWhile (\<lambda>x. \<not> is_header x) rest = rest"
    using assms(2) by (cases rest; auto)+
  show "takeWhile (\<lambda>x. \<not> is_header x) (span @ rest) = span"
    using assms(1) t by (simp add: takeWhile_append2)
  show "dropWhile (\<lambda>x. \<not> is_header x) (span @ rest) = rest"
    using assms(1) d by (simp add: dropWhile_append2)
qed

lemma dropWhile_head: "dropWhile (\<lambda>x. \<not> is_header x) ls = [] \<or> is_header (hd (dropWhile (\<lambda>x. \<not> is_header x) ls))"
  using hd_dropWhile[of "\<lambda>x. \<not> is_header x" ls] by auto

lemma update_section_at:
  assumes "Header name \<notin> set pre"
  shows "update_section name kvs (pre @ Header name # ls) =
           Some (pre @ Header name # update_keys kvs (takeWhile (\<lambda>x. \<not> is_header x) ls)
                   @ dropWhile (\<lambda>x. \<not> is_header x) ls)"
  using assms by (induction pre) auto

lemma update_section_None_iff: "update_section name kvs f = None \<longleftrightarrow> Header name \<notin> set f"
  by (induction f) auto

lemma update_section_idem:
  assumes "distinct (map fst kvs)" and "update_section name kvs f = Some f'"
  shows "update_section name kvs f' = Some f'"
proof -
  have "Header name \<in> set f" using assms(2) update_section_None_iff[of name kvs f] by auto
  then obtain pre ls where f: "f = pre @ Header name # ls" and pre: "Header name \<notin> set pre"
    by (auto dest: split_list_first)
  define span where "span = update_keys kvs (takeWhile (\<lambda>x. \<not> is_header x) ls)"
  define rest where "rest = dropWhile (\<lambda>x. \<not> is_header x) ls"
  have f': "f' = pre @ Header name # span @ rest"
    using assms(2) f pre by (simp add: update_section_at span_def rest_def)
  have s: "\<forall>l\<in>set span. \<not> is_header l"
    unfolding span_def by (rule update_keys_no_header) (auto dest: set_takeWhileD)
  have r: "rest = [] \<or> is_header (hd rest)"
    unfolding rest_def by (rule dropWhile_head)
  have "update_keys kvs span = span"
    unfolding span_def by (rule update_keys_idem[OF assms(1)])
  then show ?thesis
    unfolding f' by (simp add: update_section_at[OF pre] takeWhile_span[OF s r])
qed

lemma first_value_new_lines:
  "distinct (map fst kvs) \<Longrightarrow> (k, v) \<in> set kvs \<Longrightarrow>
     first_value k (map (\<lambda>(k, v). new_line k v) kvs) = Some v"
  by (induction kvs) (auto simp: new_line_def rev_image_eqI)

lemma update_section_append_section:
  assumes "distinct (map fst kvs)" and "Header name \<notin> set f"
  shows "update_section name kvs (append_section name kvs f) = Some (append_section name kvs f)"
proof -
  define pre where "pre = f @ (if f \<noteq> [] \<and> \<not> is_blank (last f) then [Other []] else [])"
  define span where "span = map (\<lambda>(k, v). new_line k v) kvs"
  have a: "append_section name kvs f = pre @ Header name # span"
    by (simp add: append_section_def pre_def span_def)
  have pre: "Header name \<notin> set pre" using assms(2) by (simp add: pre_def)
  have s: "\<forall>l\<in>set span. \<not> is_header l" by (auto simp: span_def new_line_def)
  have k: "update_keys kvs span = span"
    unfolding span_def by (rule update_keys_fixed) (rule first_value_new_lines[OF assms(1)])
  have tw: "takeWhile (\<lambda>x. \<not> is_header x) span = span"
    "dropWhile (\<lambda>x. \<not> is_header x) span = []"
    using s by simp_all
  show ?thesis
    unfolding a update_section_at[OF pre] tw k by simp
qed

lemma merge_profile_idem:
  assumes "distinct (map fst (keyValues p))"
  shows "merge_profile p (merge_profile p f) = merge_profile p f"
proof (cases "update_section (sectionName p) (keyValues p) f")
  case None
  then have "Header (sectionName p) \<notin> set f" by (simp add: update_section_None_iff)
  then show ?thesis
    using None update_section_append_section[OF assms] by (simp add: merge_profile_def)
next
  case (Some f')
  then show ?thesis
    using update_section_idem[OF assms Some] by (simp add: merge_profile_def)
qed

lemma first_at_Cons_0: "first_at (x # xs) 0 y \<longleftrightarrow> x = y"
  by (auto simp: first_at_def)

lemma first_at_Cons_Suc: "first_at (x # xs) (Suc i) y \<longleftrightarrow> x \<noteq> y \<and> first_at xs i y"
  by (auto simp: first_at_def)

lemma update_key_absent:
  "Some k \<notin> set (map key_of ls) \<Longrightarrow> update_key k v ls = ls @ [new_line k v]"
  by (induction k v ls rule: update_key.induct) auto

lemma update_key_present_keys:
  "Some k \<in> set (map key_of ls) \<Longrightarrow> map key_of (update_key k v ls) = map key_of ls"
  by (induction k v ls rule: update_key.induct) auto

lemma update_key_present_length:
  "Some k \<in> set (map key_of ls) \<Longrightarrow> length (update_key k v ls) = length ls"
  using update_key_present_keys[of k ls v] by (metis length_map)

lemma update_key_present_nth:
  "Some k \<in> set (map key_of ls) \<Longrightarrow> i < length ls \<Longrightarrow>
     update_key k v ls ! i =
       (if first_at (map key_of ls) i (Some k) then set_value v (ls ! i) else ls ! i)"
proof (induction ls arbitrary: i)
  case Nil
  then show ?case by simp
next
  case (Cons l ls)
  show ?case
  proof (cases i)
    case 0
    then show ?thesis by (cases l) (auto simp: first_at_Cons_0)
  next
    case (Suc j)
    then show ?thesis using Cons by (cases l) (auto simp: first_at_Cons_Suc)
  qed
qed

lemma first_at_unique: "first_at xs i x \<Longrightarrow> first_at xs i y \<Longrightarrow> x = y"
  by (simp add: first_at_def)

lemma update_two_keys:
  assumes "a \<noteq> s" and "Some a \<in> set (map key_of span)"
    and span'_def: "span' = update_key s vs (update_key a va span)"
  shows "length span' = length span + (if Some s \<in> set (map key_of span) then 0 else 1)"
    and "\<forall>i<length span. span' ! i =
          (if first_at (map key_of span) i (Some a) then set_value va (span ! i)
           else if first_at (map key_of span) i (Some s) then set_value vs (span ! i)
           else span ! i)"
    and "Some s \<notin> set (map key_of span) \<longrightarrow> span' ! length span = new_line s vs"
proof -
  define span1 where "span1 = update_key a va span"
  have k1: "map key_of span1 = map key_of span"
    and l1: "length span1 = length span"
    unfolding span1_def using assms(2)
    by (simp_all add: update_key_present_keys update_key_present_length)
  have n1: "span1 ! i = (if first_at (map key_of span) i (Some a) then set_value va (span ! i)
       else span ! i)" if "i < length span" for i
    unfolding span1_def using assms(2) that by (rule update_key_present_nth)
  show "length span' = length span + (if Some s \<in> set (map key_of span) then 0 else 1)"
  proof (cases "Some s \<in> set (map key_of span)")
    case True
    then show ?thesis
      using k1 l1 unfolding span'_def span1_def[symmetric]
      by (simp add: update_key_present_length)
  next
    case False
    then show ?thesis
      using k1 l1 unfolding span'_def span1_def[symmetric]
      by (simp add: update_key_absent)
  qed
  show "\<forall>i<length span. span' ! i =
          (if first_at (map key_of span) i (Some a) then set_value va (span ! i)
           else if first_at (map key_of span) i (Some s) then set_value vs (span ! i)
           else span ! i)"
  proof (intro allI impI)
    fix i assume i: "i < length span"
    show "span' ! i =
          (if first_at (map key_of span) i (Some a) then set_value va (span ! i)
           else if first_at (map key_of span) i (Some s) then set_value vs (span ! i)
           else span ! i)"
    proof (cases "Some s \<in> set (map key_of span)")
      case True
      then have "span' ! i = (if first_at (map key_of span) i (Some s)
          then set_value vs (span1 ! i) else span1 ! i)"
        using k1 l1 i unfolding span'_def span1_def[symmetric]
        by (simp add: update_key_present_nth)
      moreover have "\<not> (first_at (map key_of span) i (Some a) \<and> first_at (map key_of span) i (Some s))"
        using assms(1) first_at_unique by fastforce
      ultimately show ?thesis using n1[OF i] by auto
    next
      case False
      then have "span' = span1 @ [new_line s vs]"
        using k1 unfolding span'_def span1_def[symmetric] by (simp add: update_key_absent)
      moreover have "\<not> first_at (map key_of span) i (Some s)"
      proof
        assume "first_at (map key_of span) i (Some s)"
        then have "map key_of span ! i = Some s" and "i < length (map key_of span)"
          by (simp_all add: first_at_def)
        then have "Some s \<in> set (map key_of span)" by (metis nth_mem)
        then show False using False by simp
      qed
      ultimately show ?thesis using n1[OF i] l1 i by (simp add: nth_append)
    qed
  qed
  show "Some s \<notin> set (map key_of span) \<longrightarrow> span' ! length span = new_line s vs"
  proof
    assume "Some s \<notin> set (map key_of span)"
    then have "span' = span1 @ [new_line s vs]"
      using k1 unfolding span'_def span1_def[symmetric] by (simp add: update_key_absent)
    then show "span' ! length span = new_line s vs" using l1 by (simp add: nth_append)
  qed
qed

lemma count_list_update_key:
  "count_list (update_key k v ls) (Header n) = count_list ls (Header n)"
  by (induction k v ls rule: update_key.induct) (auto simp: new_line_def)

lemma count_list_update_keys:
  "count_list (update_keys kvs ls) (Header n) = count_list ls (Header n)"
  by (induction kvs ls rule: update_keys.induct) (auto simp: count_list_update_key)

lemma count_list_update_section:
  "update_section name kvs f = Some f' \<Longrightarrow> count_list f' (Header n) = count_list f (Header n)"
proof (induction f arbitrary: f')
  case Nil
  then show ?case by simp
next
  case (Cons l ls)
  show ?case
  proof (cases "l = Header name")
    case True
    have "count_list ls (Header n) =
        count_list (takeWhile (\<lambda>x. \<not> is_header x) ls @ dropWhile (\<lambda>x. \<not> is_header x) ls) (Header n)"
      by simp
    then show ?thesis
      using Cons.prems True by (auto simp: count_list_update_keys simp del: takeWhile_dropWhile_id)
  next
    case False
    then show ?thesis using Cons by auto
  qed
qed

lemma count_list_merge_profile:
  "count_list (merge_profile p f) (Header (sectionName p)) =
     max 1 (count_list f (Header (sectionName p)))"
proof (cases "update_section (sectionName p) (keyValues p) f")
  case None
  then have "Header (sectionName p) \<notin> set f" by (simp add: update_section_None_iff)
  then have "count_list f (Header (sectionName p)) = 0" by simp
  moreover have "count_list (map (\<lambda>(k, v). new_line k v) kvs) (Header n) = 0" for kvs n
    by (induction kvs) (auto simp: new_line_def)
  ultimately show ?thesis
    using None by (simp add: merge_profile_def append_section_def)
next
  case (Some f')
  then have "Header (sectionName p) \<in> set f"
    using update_section_None_iff[of "sectionName p" "keyValues p" f] by auto
  then have "count_list f (Header (sectionName p)) \<noteq> 0" by (simp only: count_list_0_iff) simp
  then have "count_list f (Header (sectionName p)) > 0" by simp
  then show ?thesis
    using Some count_list_update_section[OF Some] by (simp add: merge_profile_def)
qed

section \<open>Empty input\<close>

text \<open>
  Claim C7. Parsing fails with the error of an empty CSV (\<^verbatim>\<open>_EMPTY_CSV\<close>) if and
  only if the text is empty or consists of whitespace only. The test is the first
  statement of \<^verbatim>\<open>_parse_csv\<close>, before any line is split off.
\<close>

theorem empty_input_iff:
  "parse_credentials self csv = Inl EmptyCSV \<longleftrightarrow> (\<forall>c\<in>set csv. is_space c)"
proof (cases "strip csv = []")
  case True
  then show ?thesis
    by (simp add: parse_credentials_def parse_csv_def strip_Nil_iff[symmetric])
next
  case False
  then have "parse_csv self csv \<noteq> Inl EmptyCSV"
    using parse_csv_error_cases[of csv self EmptyCSV] by auto
  then show ?thesis
    using False by (simp add: parse_credentials_def strip_Nil_iff)
qed

theorem empty_input_iff_witness:
  "parse_credentials \<lparr>strict = True\<rparr> [CHR '' '', CHR 0x0A, CHR 0x09] = Inl EmptyCSV
   \<and> parse_credentials \<lparr>strict = True\<rparr> '' x '' \<noteq> Inl EmptyCSV"
  using empty_input_iff[of "\<lparr>strict = True\<rparr>" "[CHR '' '', CHR 0x0A, CHR 0x09]"]
    empty_input_iff[of "\<lparr>strict = True\<rparr>" "'' x ''"]
  by (simp add: is_space_def)

section \<open>Header recognition\<close>

text \<open>
  Claim C4. The header row is split on commas and each cell lower-cased and trimmed
  (\<open>parsed_headers\<close>); the expected labels are compared in the same form. When all three
  are among the cells, in any order and among any other columns, the result is the three
  first positions of the labels. When one is missing, the result is the error naming an
  expected label that is missing. For a text that is not blank, the whole parse fails
  with a header error if and only if a label is missing from the first line, whatever
  the data rows hold.
\<close>

theorem header_recognition:
  "(has_headers header \<longrightarrow>
      (\<exists>ui ai si. parse_csv_headers header = Inr [ui, ai, si]
         \<and> first_at (parsed_headers header) ui ''user name''
         \<and> first_at (parsed_headers header) ai ''access key id''
         \<and> first_at (parsed_headers header) si ''secret access key''))
   \<and> (\<not> has_headers header \<longrightarrow>
      (\<exists>h\<in>set EXPECTED_HEADERS. format_header h \<notin> set (parsed_headers header)
         \<and> parse_csv_headers header = Inl (HeaderNotFound h)))
   \<and> (strip csv \<noteq> [] \<and> splitlines csv = header # rows \<longrightarrow>
      ((\<exists>h. parse_credentials self csv = Inl (HeaderNotFound h)) \<longleftrightarrow> \<not> has_headers header)
      \<and> (\<forall>e. parse_csv_headers header = Inl e \<longrightarrow> parse_credentials self csv = Inl e))"
proof (intro conjI impI)
  assume h: "has_headers header"
  then show "\<exists>ui ai si. parse_csv_headers header = Inr [ui, ai, si]
         \<and> first_at (parsed_headers header) ui ''user name''
         \<and> first_at (parsed_headers header) ai ''access key id''
         \<and> first_at (parsed_headers header) si ''secret access key''"
    by (simp add: has_headers_iff parse_csv_headers_eq first_at_takeWhile)
next
  assume "\<not> has_headers header"
  then show "\<exists>h\<in>set EXPECTED_HEADERS. format_header h \<notin> set (parsed_headers header)
         \<and> parse_csv_headers header = Inl (HeaderNotFound h)"
    using fmt_username fmt_akid fmt_sak
    by (auto simp: has_headers_iff parse_csv_headers_eq EXPECTED_HEADERS_def
        USERNAME_HEADER_def AKID_HEADER_def SAK_HEADER_def)
next
  assume a: "strip csv \<noteq> [] \<and> splitlines csv = header # rows"
  show "(\<exists>h. parse_credentials self csv = Inl (HeaderNotFound h)) \<longleftrightarrow> \<not> has_headers header"
  proof (cases "parse_csv_headers header")
    case (Inl e)
    then have "\<not> has_headers header" "\<exists>h. e = HeaderNotFound h"
      by (auto simp: has_headers_iff parse_csv_headers_eq split: if_splits)
    moreover have "parse_credentials self csv = Inl e"
      using a Inl by (simp add: parse_credentials_def parse_csv_def item_def)
    ultimately show ?thesis by auto
  next
    case (Inr hs)
    then have "has_headers header"
      by (auto simp: has_headers_iff parse_csv_headers_eq split: if_splits)
    moreover have "parse_credentials self csv = parse_csv_rows self rows hs"
      using a Inr by (simp add: parse_credentials_def parse_csv_def item_def)
    then have "\<forall>h. parse_credentials self csv \<noteq> Inl (HeaderNotFound h)"
      using parse_csv_rows_error[of self rows hs] by auto
    ultimately show ?thesis by auto
  qed
next
  assume a: "strip csv \<noteq> [] \<and> splitlines csv = header # rows"
  then show "\<forall>e. parse_csv_headers header = Inl e \<longrightarrow> parse_credentials self csv = Inl e"
    by (simp add: parse_credentials_def parse_csv_def item_def)
qed

theorem header_recognition_witness:
  "has_headers ''user name, ACCESS KEY ID , Secret Access key''
   \<and> (\<exists>ui ai si.
         parse_csv_headers ''user name, ACCESS KEY ID , Secret Access key'' = Inr [ui, ai, si]
         \<and> first_at (parsed_headers ''user name, ACCESS KEY ID , Secret Access key'') ui ''user name''
         \<and> first_at (parsed_headers ''user name, ACCESS KEY ID , Secret Access key'') ai ''access key id''
         \<and> first_at (parsed_headers ''user name, ACCESS KEY ID , Secret Access key'') si
               ''secret access key'')
   \<and> \<not> has_headers ''Password,Access Key ID,User Name''
   \<and> strip (''Password,Access Key ID,User Name'' @ [CHR 0x0A] @ ''pw,AKIA1,alice'') \<noteq> []
   \<and> splitlines (''Password,Access Key ID,User Name'' @ [CHR 0x0A] @ ''pw,AKIA1,alice'')
       = [''Password,Access Key ID,User Name'', ''pw,AKIA1,alice'']
   \<and> (\<exists>h. parse_credentials \<lparr>strict = False\<rparr>
             (''Password,Access Key ID,User Name'' @ [CHR 0x0A] @ ''pw,AKIA1,alice'')
           = Inl (HeaderNotFound h))"
proof -
  have h1: "has_headers ''user name, ACCESS KEY ID , Secret Access key''"
    by code_simp
  have h2: "\<not> has_headers ''Password,Access Key ID,User Name''"
    by code_simp
  have h3: "strip (''Password,Access Key ID,User Name'' @ [CHR 0x0A] @ ''pw,AKIA1,alice'') \<noteq> []"
    by code_simp
  have h4: "splitlines (''Password,Access Key ID,User Name'' @ [CHR 0x0A] @ ''pw,AKIA1,alice'')
       = [''Password,Access Key ID,User Name'', ''pw,AKIA1,alice'']"
    by code_simp
  show ?thesis
    using h1 h2 h3 h4
      header_recognition[of "''user name, ACCESS KEY ID , Secret Access key''" "[]" "[]"
        "\<lparr>strict = False\<rparr>"]
      header_recognition[of "''Password,Access Key ID,User Name''"
        "''Password,Access Key ID,User Name'' @ [CHR 0x0A] @ ''pw,AKIA1,alice''"
        "[''pw,AKIA1,alice'']" "\<lparr>strict = False\<rparr>"]
    by blast
qed

section \<open>Rows with all required fields\<close>

text \<open>
  Claim C1. When the first line holds all three expected labels, \<open>ui\<close>, \<open>ai\<close> and
  \<open>si\<close> are the positions \<^verbatim>\<open>_parse_csv_headers\<close> records for them, and every data
  row has a column at each of the three positions that is not empty after trimming, then
  \<^verbatim>\<open>parse_credentials\<close> returns one credential per data row, in the order of the rows,
  each field being the column at the recorded position with the surrounding whitespace
  removed. This holds with \<^verbatim>\<open>strict\<close> set and unset.
\<close>

theorem parse_credentials_complete_rows:
  assumes "splitlines csv = header # rows"
    and "has_headers header"
    and "parse_csv_headers header = Inr [ui, ai, si]"
    and "\<forall>user\<in>set rows. complete ui ai si user"
  shows "parse_credentials self csv = Inr (map (trimmed_fields ui ai si) rows)"
  using assms
  by (simp add: parse_credentials_rows parse_csv_rows_def parse_csv_rows_loop_complete)

theorem parse_credentials_complete_rows_witness:
  "parse_credentials \<lparr>strict = True\<rparr>
     (''Password, user name ,Secret Access Key,Access key id'' @ [CHR 0x0A]
        @ ''pw1, alice ,SECRET1,AKIA1,x'' @ [CHR 0x0D, CHR 0x0A] @ ''pw2,bob,SECRET2, AKIA2'')
   = Inr [(''alice'', ''AKIA1'', ''SECRET1''), (''bob'', ''AKIA2'', ''SECRET2'')]"
proof -
  have h1: "splitlines (''Password, user name ,Secret Access Key,Access key id'' @ [CHR 0x0A]
        @ ''pw1, alice ,SECRET1,AKIA1,x'' @ [CHR 0x0D, CHR 0x0A] @ ''pw2,bob,SECRET2, AKIA2'')
      = ''Password, user name ,Secret Access Key,Access key id''
          # [''pw1, alice ,SECRET1,AKIA1,x'', ''pw2,bob,SECRET2, AKIA2'']"
    by code_simp
  have h2: "has_headers ''Password, user name ,Secret Access Key,Access key id''"
    by code_simp
  have h3: "parse_csv_headers ''Password, user name ,Secret Access Key,Access key id''
      = Inr [1, 3, 2]"
    by code_simp
  have h4: "\<forall>user\<in>set [''pw1, alice ,SECRET1,AKIA1,x'', ''pw2,bob,SECRET2, AKIA2''].
      complete 1 3 2 user"
    by code_simp
  have e: "map (trimmed_fields 1 3 2) [''pw1, alice ,SECRET1,AKIA1,x'', ''pw2,bob,SECRET2, AKIA2'']
      = [(''alice'', ''AKIA1'', ''SECRET1''), (''bob'', ''AKIA2'', ''SECRET2'')]"
    by code_simp
  show ?thesis
    using parse_credentials_complete_rows[OF h1 h2 h3 h4, of "\<lparr>strict = True\<rparr>"]
    unfolding e .
qed

section \<open>Strict mode\<close>

text \<open>
  Rows that have a column at each recorded position. With \<^verbatim>\<open>strict\<close> set, let row
  \<open>k\<close> (counted from 0) be the first data row that is not complete, and let it have the
  three columns. If its username is empty after trimming, the parse fails with the
  username error for entry \<open>k + 1\<close>, whatever the two key fields hold; if its username
  is not empty and the access key id or the secret access key is, the parse fails with
  the secret error for entry \<open>k + 1\<close>. The result is the error alone.
\<close>

theorem strict_invalid_row:
  assumes "strict self"
    and "splitlines csv = header # rows"
    and "parse_csv_headers header = Inr [ui, ai, si]"
    and "k < length rows"
    and "\<forall>j<k. complete ui ai si (rows ! j)"
    and "has_columns ui ai si (rows ! k)"
  shows "(username_of ui (rows ! k) = [] \<longrightarrow>
            parse_credentials self csv = Inl (InvalidUsername (k + 1)))
       \<and> (username_of ui (rows ! k) \<noteq> [] \<and>
            (akid_of ai (rows ! k) = [] \<or> sak_of si (rows ! k) = []) \<longrightarrow>
            parse_credentials self csv = Inl (InvalidSecret (k + 1)))"
proof -
  have "parse_credentials self csv = parse_csv_rows_loop self ui ai si 0 [] rows"
    using assms(2,3) by (simp add: parse_credentials_rows parse_csv_rows_def)
  then show ?thesis
    using assms(1,6) parse_csv_rows_loop_first_bad[OF assms(4,5), of self]
    by (simp add: parse_csv_row_eq)
qed

theorem strict_invalid_row_witness:
  "parse_credentials \<lparr>strict = True\<rparr>
     (''User Name,Access Key ID,Secret Access key'' @ [CHR 0x0A]
        @ ''alice,AKIA1,SECRET1'' @ [CHR 0x0A] @ '' , ,SECRET2'' @ [CHR 0x0A] @ ''carol'')
     = Inl (InvalidUsername 2)
   \<and> parse_credentials \<lparr>strict = True\<rparr>
     (''User Name,Access Key ID,Secret Access key'' @ [CHR 0x0A]
        @ ''alice,AKIA1,SECRET1'' @ [CHR 0x0A] @ ''bob,AKIA2, '' @ [CHR 0x0A] @ '',,'')
     = Inl (InvalidSecret 2)"
proof -
  have s: "strict \<lparr>strict = True\<rparr>" by simp
  have h: "parse_csv_headers ''User Name,Access Key ID,Secret Access key'' = Inr [0, 1, 2]"
    by code_simp
  have a1: "splitlines (''User Name,Access Key ID,Secret Access key'' @ [CHR 0x0A]
        @ ''alice,AKIA1,SECRET1'' @ [CHR 0x0A] @ '' , ,SECRET2'' @ [CHR 0x0A] @ ''carol'')
      = ''User Name,Access Key ID,Secret Access key''
          # [''alice,AKIA1,SECRET1'', '' , ,SECRET2'', ''carol'']"
    by code_simp
  have a2: "(1::nat) < length [''alice,AKIA1,SECRET1'', '' , ,SECRET2'', ''carol'']"
    by simp
  have a3: "\<forall>j<1. complete 0 1 2 ([''alice,AKIA1,SECRET1'', '' , ,SECRET2'', ''carol''] ! j)"
    by code_simp
  have a4: "has_columns 0 1 2 ([''alice,AKIA1,SECRET1'', '' , ,SECRET2'', ''carol''] ! 1)"
    by code_simp
  have a5: "username_of 0 ([''alice,AKIA1,SECRET1'', '' , ,SECRET2'', ''carol''] ! 1) = []"
    by code_simp
  have b1: "splitlines (''User Name,Access Key ID,Secret Access key'' @ [CHR 0x0A]
        @ ''alice,AKIA1,SECRET1'' @ [CHR 0x0A] @ ''bob,AKIA2, '' @ [CHR 0x0A] @ '',,'')
      = ''User Name,Access Key ID,Secret Access key''
          # [''alice,AKIA1,SECRET1'', ''bob,AKIA2, '', '',,'']"
    by code_simp
  have b2: "(1::nat) < length [''alice,AKIA1,SECRET1'', ''bob,AKIA2, '', '',,'']"
    by simp
  have b3: "\<forall>j<1. complete 0 1 2 ([''alice,AKIA1,SECRET1'', ''bob,AKIA2, '', '',,''] ! j)"
    by code_simp
  have b4: "has_columns 0 1 2 ([''alice,AKIA1,SECRET1'', ''bob,AKIA2, '', '',,''] ! 1)"
    by code_simp
  have b5: "username_of 0 ([''alice,AKIA1,SECRET1'', ''bob,AKIA2, '', '',,''] ! 1) \<noteq> []
      \<and> (akid_of 1 ([''alice,AKIA1,SECRET1'', ''bob,AKIA2, '', '',,''] ! 1) = []
           \<or> sak_of 2 ([''alice,AKIA1,SECRET1'', ''bob,AKIA2, '', '',,''] ! 1) = [])"
    by code_simp
  show ?thesis
    using strict_invalid_row[OF s a1 h a2 a3 a4] a5 strict_invalid_row[OF s b1 h b2 b3 b4] b5
    by simp
qed

text \<open>
  Claim C2 says that in strict mode every data row whose username field is empty after
  trimming fails with the username error for its entry number, and every row with a
  username but an empty access key id or secret access key fails with the secret error.
  \<^verbatim>\<open>_parse_csv_rows\<close> reads all three columns (lines 122-124) before it tests the
  username (line 126), so on a row that is too short the claim and the code part: the
  row \<^verbatim>\<open>,AKIA2\<close> has an empty username field and the row \<^verbatim>\<open>bob, \<close> a username and
  an empty access key id, and both end in \<^verbatim>\<open>IndexError\<close>, not in the error of the
  parser.
\<close>

theorem strict_short_row_failing_input:
  "username_of 0 '',AKIA2'' = []
   \<and> parse_credentials \<lparr>strict = True\<rparr>
       (''User Name,Access Key ID,Secret Access key'' @ [CHR 0x0A]
          @ ''alice,AKIA1,SECRET1'' @ [CHR 0x0A] @ '',AKIA2'')
       = Inl IndexError
   \<and> username_of 0 ''bob, '' = ''bob'' \<and> akid_of 1 ''bob, '' = []
   \<and> parse_credentials \<lparr>strict = True\<rparr>
       (''User Name,Access Key ID,Secret Access key'' @ [CHR 0x0A] @ ''bob, '')
       = Inl IndexError"
  by code_simp

section \<open>Lenient mode\<close>

text \<open>
  Rows that have a column at each recorded position. With \<^verbatim>\<open>strict\<close> unset, and
  every data row having the three columns, the result is the credentials of exactly the
  complete rows, in order: a row whose username, access key id or secret access key is
  empty after trimming is left out and raises nothing. The result is the empty list when
  no row is complete. For the text of the specification's example, strict mode fails
  with the username error for entry 2 and lenient mode returns the credential of alice
  alone.
\<close>

theorem lenient_skips_incomplete_rows:
  "(\<not> strict self \<and> splitlines csv = header # rows
      \<and> parse_csv_headers header = Inr [ui, ai, si]
      \<and> (\<forall>user\<in>set rows. has_columns ui ai si user)
    \<longrightarrow> parse_credentials self csv =
          Inr (map (trimmed_fields ui ai si) (filter (complete ui ai si) rows)))
   \<and> parse_credentials \<lparr>strict = True\<rparr>
       (''User Name,Access Key ID,Secret Access key'' @ [CHR 0x0A]
          @ ''alice,AKIA1,SECRET1'' @ [CHR 0x0A] @ '',AKIA2,SECRET2'' @ [CHR 0x0A])
       = Inl (InvalidUsername 2)
   \<and> parse_credentials \<lparr>strict = False\<rparr>
       (''User Name,Access Key ID,Secret Access key'' @ [CHR 0x0A]
          @ ''alice,AKIA1,SECRET1'' @ [CHR 0x0A] @ '',AKIA2,SECRET2'' @ [CHR 0x0A])
       = Inr [(''alice'', ''AKIA1'', ''SECRET1'')]"
proof (intro conjI impI)
  assume a: "\<not> strict self \<and> splitlines csv = header # rows
      \<and> parse_csv_headers header = Inr [ui, ai, si]
      \<and> (\<forall>user\<in>set rows. has_columns ui ai si user)"
  then have "parse_credentials self csv = parse_csv_rows_loop self ui ai si 0 [] rows"
    by (simp add: parse_credentials_rows parse_csv_rows_def)
  then show "parse_credentials self csv =
          Inr (map (trimmed_fields ui ai si) (filter (complete ui ai si) rows))"
    using a by (simp add: parse_csv_rows_loop_lenient)
next
  show "parse_credentials \<lparr>strict = True\<rparr>
       (''User Name,Access Key ID,Secret Access key'' @ [CHR 0x0A]
          @ ''alice,AKIA1,SECRET1'' @ [CHR 0x0A] @ '',AKIA2,SECRET2'' @ [CHR 0x0A])
       = Inl (InvalidUsername 2)"
    by code_simp
next
  show "parse_credentials \<lparr>strict = False\<rparr>
       (''User Name,Access Key ID,Secret Access key'' @ [CHR 0x0A]
          @ ''alice,AKIA1,SECRET1'' @ [CHR 0x0A] @ '',AKIA2,SECRET2'' @ [CHR 0x0A])
       = Inr [(''alice'', ''AKIA1'', ''SECRET1'')]"
    by code_simp
qed

theorem lenient_skips_incomplete_rows_witness:
  "parse_credentials \<lparr>strict = False\<rparr>
     (''User Name,Access Key ID,Secret Access key'' @ [CHR 0x0A]
        @ '' ,AKIA1,SECRET1'' @ [CHR 0x0A] @ ''bob,,SECRET2'' @ [CHR 0x0A] @ ''carol,AKIA3, '')
   = Inr []"
proof -
  have h1: "\<not> strict \<lparr>strict = False\<rparr>" by simp
  have h2: "splitlines (''User Name,Access Key ID,Secret Access key'' @ [CHR 0x0A]
        @ '' ,AKIA1,SECRET1'' @ [CHR 0x0A] @ ''bob,,SECRET2'' @ [CHR 0x0A] @ ''carol,AKIA3, '')
      = ''User Name,Access Key ID,Secret Access key''
          # ['' ,AKIA1,SECRET1'', ''bob,,SECRET2'', ''carol,AKIA3, '']"
    by code_simp
  have h3: "parse_csv_headers ''User Name,Access Key ID,Secret Access key'' = Inr [0, 1, 2]"
    by code_simp
  have h4: "\<forall>user\<in>set ['' ,AKIA1,SECRET1'', ''bob,,SECRET2'', ''carol,AKIA3, ''].
      has_columns 0 1 2 user"
    by code_simp
  have e: "map (trimmed_fields 0 1 2)
      (filter (complete 0 1 2) ['' ,AKIA1,SECRET1'', ''bob,,SECRET2'', ''carol,AKIA3, '']) = []"
    by code_simp
  show ?thesis
    using lenient_skips_incomplete_rows[of "\<lparr>strict = False\<rparr>" _
        "''User Name,Access Key ID,Secret Access key''"
        "['' ,AKIA1,SECRET1'', ''bob,,SECRET2'', ''carol,AKIA3, '']" 0 1 2] h1 h2 h3 h4
    unfolding e by blast
qed

text \<open>
  Claim C3 says that in lenient mode every data row with an empty username, access key
  id or secret access key is dropped without an error, and the help text of
  \<^verbatim>\<open>--skip-invalid\<close> (lines 38-41) promises that invalid entries are skipped instead
  of failing. The three columns are read before any test, also when \<^verbatim>\<open>strict\<close> is
  unset, so a row that is too short is not dropped: after the row of alice, the row
  \<^verbatim>\<open>,AKIA2\<close> and an empty row, both with an empty username field, end the parse in
  \<^verbatim>\<open>IndexError\<close> where the claim gives the credential of alice.
\<close>

theorem lenient_short_row_failing_input:
  "username_of 0 '',AKIA2'' = []
   \<and> parse_credentials \<lparr>strict = False\<rparr>
       (''User Name,Access Key ID,Secret Access key'' @ [CHR 0x0A]
          @ ''alice,AKIA1,SECRET1'' @ [CHR 0x0A] @ '',AKIA2'')
       = Inl IndexError
   \<and> username_of 0 [] = []
   \<and> parse_credentials \<lparr>strict = False\<rparr>
       (''User Name,Access Key ID,Secret Access key'' @ [CHR 0x0A]
          @ ''alice,AKIA1,SECRET1'' @ [CHR 0x0A] @ [CHR 0x0A])
       = Inl IndexError"
  by code_simp

section \<open>A trailing newline\<close>

text \<open>
  Claim C8, as amended. For a text that is blank, or whose last character is not a line
  terminator, or is a carriage return (which the added line feed completes to one
  terminator), appending one line feed does not change the result of the parse. The
  counterexample below shows that the condition is needed: a text that already ends with
  a line feed gets a further, empty row.
\<close>

theorem trailing_newline_invariance:
  assumes "strip csv = [] \<or> \<not> is_linebreak (last csv) \<or> last csv = CHR 0x0D"
  shows "parse_credentials self (csv @ [CHR 0x0A]) = parse_credentials self csv"
proof (cases "strip csv = []")
  case True
  then have "strip (csv @ [CHR 0x0A]) = []"
    by (simp add: strip_Nil_iff is_space_def)
  then show ?thesis using True by (simp add: parse_credentials_def parse_csv_def)
next
  case False
  then have ne: "csv \<noteq> []" by (auto simp: strip_def)
  have "strip (csv @ [CHR 0x0A]) \<noteq> []"
    using False by (simp add: strip_Nil_iff)
  moreover have "splitlines (csv @ [CHR 0x0A]) = splitlines csv"
    using splitlines_append_LF[OF ne] assms False by blast
  ultimately show ?thesis
    using False by (simp add: parse_credentials_def parse_csv_def)
qed

theorem trailing_newline_invariance_witness:
  "parse_credentials \<lparr>strict = True\<rparr>
     ((''User Name,Access Key ID,Secret Access key'' @ [CHR 0x0A] @ ''alice,AKIA1,SECRET1'')
        @ [CHR 0x0A])
   = parse_credentials \<lparr>strict = True\<rparr>
       (''User Name,Access Key ID,Secret Access key'' @ [CHR 0x0A] @ ''alice,AKIA1,SECRET1'')"
proof -
  have "\<not> is_linebreak
      (last (''User Name,Access Key ID,Secret Access key'' @ [CHR 0x0A] @ ''alice,AKIA1,SECRET1''))"
    by code_simp
  then show ?thesis
    using trailing_newline_invariance[of
        "''User Name,Access Key ID,Secret Access key'' @ [CHR 0x0A] @ ''alice,AKIA1,SECRET1''"
        "\<lparr>strict = True\<rparr>"]
    by blast
qed

theorem trailing_newline_counterexample:
  "parse_credentials \<lparr>strict = True\<rparr>
     (''User Name,Access Key ID,Secret Access key'' @ [CHR 0x0A]) = Inr []
   \<and> parse_credentials \<lparr>strict = True\<rparr>
     ((''User Name,Access Key ID,Secret Access key'' @ [CHR 0x0A]) @ [CHR 0x0A]) = Inl IndexError"
  by code_simp

section \<open>Rows with too few columns\<close>

text \<open>
  Claim C10. A data row with fewer columns than the largest recorded position plus one
  makes the loop body raise \<^verbatim>\<open>IndexError\<close>, with \<^verbatim>\<open>strict\<close> set and unset: the
  three columns are read before any field is tested. When the rows before it are
  processed without an exception, \<^verbatim>\<open>_parse_csv_rows\<close> as a whole raises
  \<^verbatim>\<open>IndexError\<close>; lenient mode does not skip the row.
\<close>

theorem short_row_index_error:
  assumes "length (cols user) \<le> max ui (max ai si)"
  shows "parse_csv_row self ui ai si n user = Inl IndexError
       \<and> ((\<exists>creds. parse_csv_rows self pre [ui, ai, si] = Inr creds) \<longrightarrow>
            parse_csv_rows self (pre @ user # post) [ui, ai, si] = Inl IndexError)"
proof -
  have "\<not> has_columns ui ai si user"
    using assms by (auto simp: has_columns_def)
  then have row: "\<And>n. parse_csv_row self ui ai si n user = Inl IndexError"
    by (simp add: parse_csv_row_eq)
  then show ?thesis
    by (auto simp: parse_csv_rows_def parse_csv_rows_loop_append)
qed

theorem short_row_index_error_witness:
  "parse_csv_row \<lparr>strict = True\<rparr> 0 1 2 1 ''alice,AKIA1'' = Inl IndexError
   \<and> parse_csv_row \<lparr>strict = False\<rparr> 0 1 2 1 ''alice,AKIA1'' = Inl IndexError
   \<and> parse_csv_rows \<lparr>strict = False\<rparr> ['',AKIA0,SECRET0'', ''alice,AKIA1'', ''bob,AKIA2,SECRET2'']
         [0, 1, 2] = Inl IndexError"
proof -
  have h: "length (cols ''alice,AKIA1'') \<le> max 0 (max 1 (2::nat))"
    by code_simp
  have "parse_csv_rows \<lparr>strict = False\<rparr> ['',AKIA0,SECRET0''] [0, 1, 2] = Inr []"
    by code_simp
  then have p: "\<exists>creds. parse_csv_rows \<lparr>strict = False\<rparr> ['',AKIA0,SECRET0''] [0, 1, 2] = Inr creds"
    by blast
  show ?thesis
    using short_row_index_error[OF h, of "\<lparr>strict = True\<rparr>" 1 "[]" "[]"]
      short_row_index_error[OF h, of "\<lparr>strict = False\<rparr>" 1 "['',AKIA0,SECRET0'']"
        "[''bob,AKIA2,SECRET2'']"] p
    by simp
qed

section \<open>Merging a profile twice\<close>

text \<open>
  Claim C5. Merging the same profile into the same file a second time leaves the file as
  the first merge left it, for every storage, path and profile with pairwise distinct
  keys (as the keys of the Python dictionary are), and so for every credential that
  \<^verbatim>\<open>import_credential\<close> turns into a profile: the second merge finds the section and
  each key with the value already in place, and adds no line. A merge never adds a
  second header of the section: afterwards the file holds as many as before, or one if
  it held none.
\<close>

theorem update_config_idempotent:
  "(distinct (map fst (keyValues profile)) \<longrightarrow>
      update_config profile path (update_config profile path fs) = update_config profile path fs)
   \<and> import_credential credential path (import_credential credential path fs)
       = import_credential credential path fs
   \<and> count_list (merge_profile profile f) (Header (sectionName profile))
       = max 1 (count_list f (Header (sectionName profile)))"
proof -
  have u: "update_config p path (update_config p path fs) = update_config p path fs"
    if "distinct (map fst (keyValues p))" for p
    using that by (simp add: update_config_def merge_profile_idem)
  obtain name akid sak where c: "credential = (name, akid, sak)" by (cases credential)
  show ?thesis
    using u[of profile]
      u[of "\<lparr>sectionName = name,
           keyValues = [(''aws_access_key_id'', akid), (''aws_secret_access_key'', sak)]\<rparr>"]
    by (simp add: import_credential_def c count_list_merge_profile)
qed

theorem update_config_idempotent_witness:
  "update_config
     \<lparr>sectionName = ''alice'', keyValues = [(''aws_access_key_id'', ''AKIA1''), (''region'', ''eu'')]\<rparr>
     ''credentials''
     (update_config
        \<lparr>sectionName = ''alice'', keyValues = [(''aws_access_key_id'', ''AKIA1''), (''region'', ''eu'')]\<rparr>
        ''credentials''
        [''credentials'' \<mapsto> [Other ''# keys'', Header ''alice'', KeyValue [] ''region'' ''='' ''us'']])
   = update_config
       \<lparr>sectionName = ''alice'', keyValues = [(''aws_access_key_id'', ''AKIA1''), (''region'', ''eu'')]\<rparr>
       ''credentials''
       [''credentials'' \<mapsto> [Other ''# keys'', Header ''alice'', KeyValue [] ''region'' ''='' ''us'']]"
proof -
  have "distinct (map fst (keyValues
      \<lparr>sectionName = ''alice'', keyValues = [(''aws_access_key_id'', ''AKIA1''), (''region'', ''eu'')]\<rparr>))"
    by simp
  then show ?thesis
    using update_config_idempotent[of
        "\<lparr>sectionName = ''alice'', keyValues = [(''aws_access_key_id'', ''AKIA1''), (''region'', ''eu'')]\<rparr>"
        "''credentials''"
        "[''credentials'' \<mapsto> [Other ''# keys'', Header ''alice'', KeyValue [] ''region'' ''='' ''us'']]"]
    by blast
qed

section \<open>What a merge leaves unchanged\<close>

text \<open>
  Claim C6, as amended. Let the file be \<open>pre\<close>, the first header of the section, the
  section's span and \<open>rest\<close> (empty, or starting with the next header), and let the span
  hold an \<^verbatim>\<open>aws_access_key_id\<close> line. After \<^verbatim>\<open>import_credential\<close> the file is
  \<open>pre\<close>, the header, a new span and \<open>rest\<close>: every line before the span and from the next
  header on is as before. Within the span, the first \<^verbatim>\<open>aws_access_key_id\<close> line and the
  first \<^verbatim>\<open>aws_secret_access_key\<close> line keep everything but their value text, and every
  other line is as before, at the same position. When the span holds no
  \<^verbatim>\<open>aws_secret_access_key\<close> line, one new line for it is appended at the end of the
  span; otherwise the span keeps its length. The counterexample below is a merge that
  adds such a line, which is more than a change of value text.
\<close>

theorem import_credential_frame:
  assumes "fs path = Some (pre @ Header name # span @ rest)"
    and "Header name \<notin> set pre"
    and "\<forall>l\<in>set span. \<not> is_header l"
    and "rest = [] \<or> is_header (hd rest)"
    and "Some ''aws_access_key_id'' \<in> set (map key_of span)"
  shows "\<exists>span'.
      import_credential (name, akid, sak) path fs
        = fs(path \<mapsto> pre @ Header name # span' @ rest)
      \<and> length span' = length span
          + (if Some ''aws_secret_access_key'' \<in> set (map key_of span) then 0 else 1)
      \<and> (\<forall>i<length span. span' ! i =
           (if first_at (map key_of span) i (Some ''aws_access_key_id'')
              then set_value akid (span ! i)
            else if first_at (map key_of span) i (Some ''aws_secret_access_key'')
              then set_value sak (span ! i)
            else span ! i))
      \<and> (Some ''aws_secret_access_key'' \<notin> set (map key_of span) \<longrightarrow>
           span' ! length span = new_line ''aws_secret_access_key'' sak)"
proof -
  define span' where
    "span' = update_key ''aws_secret_access_key'' sak (update_key ''aws_access_key_id'' akid span)"
  have ne: "''aws_access_key_id'' \<noteq> ''aws_secret_access_key''" by simp
  have "update_section name
      [(''aws_access_key_id'', akid), (''aws_secret_access_key'', sak)]
      (pre @ Header name # span @ rest) = Some (pre @ Header name # span' @ rest)"
    unfolding update_section_at[OF assms(2)] takeWhile_span[OF assms(3,4)] span'_def by simp
  then have "import_credential (name, akid, sak) path fs
      = fs(path \<mapsto> pre @ Header name # span' @ rest)"
    using assms(1) by (simp add: import_credential_def update_config_def merge_profile_def)
  then show ?thesis
    using update_two_keys[OF ne assms(5) span'_def] by blast
qed

theorem import_credential_frame_witness:
  "\<exists>span'.
     import_credential (''alice'', ''NEW'', ''S1'') ''credentials''
       [''credentials'' \<mapsto>
        [Other ''# my keys'', Header ''bob'', KeyValue [] ''aws_access_key_id'' ''='' ''BOBKEY'', Other []]
        @ Header ''alice''
        # [Other ''# rotated'', KeyValue ''  '' ''aws_access_key_id'' '' = '' ''OLD'',
          KeyValue [] ''aws_secret_access_key'' ''='' ''S0'', Other []]
        @ [Header ''carol'', KeyValue [] ''aws_access_key_id'' ''='' ''CAROLKEY'']]
     = [''credentials'' \<mapsto>
        [Other ''# my keys'', Header ''bob'', KeyValue [] ''aws_access_key_id'' ''='' ''BOBKEY'', Other []]
        @ Header ''alice'' # span' @ [Header ''carol'', KeyValue [] ''aws_access_key_id'' ''='' ''CAROLKEY'']]
     \<and> length span' = 4
     \<and> span' ! 0 = Other ''# rotated''
     \<and> span' ! 1 = KeyValue ''  '' ''aws_access_key_id'' '' = '' ''NEW''
     \<and> span' ! 2 = KeyValue [] ''aws_secret_access_key'' ''='' ''S1''
     \<and> span' ! 3 = Other []"
proof -
  define fs :: storage where "fs = [''credentials'' \<mapsto>
        [Other ''# my keys'', Header ''bob'', KeyValue [] ''aws_access_key_id'' ''='' ''BOBKEY'', Other []]
        @ Header ''alice''
        # [Other ''# rotated'', KeyValue ''  '' ''aws_access_key_id'' '' = '' ''OLD'',
          KeyValue [] ''aws_secret_access_key'' ''='' ''S0'', Other []]
        @ [Header ''carol'', KeyValue [] ''aws_access_key_id'' ''='' ''CAROLKEY'']]"
  have h1: "fs ''credentials'' = Some ([Other ''# my keys'', Header ''bob'', KeyValue [] ''aws_access_key_id'' ''='' ''BOBKEY'', Other []]
        @ Header ''alice''
        # [Other ''# rotated'', KeyValue ''  '' ''aws_access_key_id'' '' = '' ''OLD'',
          KeyValue [] ''aws_secret_access_key'' ''='' ''S0'', Other []]
        @ [Header ''carol'', KeyValue [] ''aws_access_key_id'' ''='' ''CAROLKEY''])"
    by (simp add: fs_def)
  have h2: "Header ''alice'' \<notin> set [Other ''# my keys'', Header ''bob'', KeyValue [] ''aws_access_key_id'' ''='' ''BOBKEY'', Other []]"
    by simp
  have h3: "\<forall>l\<in>set [Other ''# rotated'', KeyValue ''  '' ''aws_access_key_id'' '' = '' ''OLD'',
          KeyValue [] ''aws_secret_access_key'' ''='' ''S0'', Other []]. \<not> is_header l"
    by simp
  have h4: "[Header ''carol'', KeyValue [] ''aws_access_key_id'' ''='' ''CAROLKEY''] = [] \<or> is_header (hd [Header ''carol'', KeyValue [] ''aws_access_key_id'' ''='' ''CAROLKEY''])"
    by simp
  have h5: "Some ''aws_access_key_id'' \<in> set (map key_of [Other ''# rotated'', KeyValue ''  '' ''aws_access_key_id'' '' = '' ''OLD'',
          KeyValue [] ''aws_secret_access_key'' ''='' ''S0'', Other []])"
    by simp
  obtain span' where
    r: "import_credential (''alice'', ''NEW'', ''S1'') ''credentials'' fs
        = fs(''credentials'' \<mapsto> [Other ''# my keys'', Header ''bob'', KeyValue [] ''aws_access_key_id'' ''='' ''BOBKEY'', Other []]
            @ Header ''alice'' # span' @ [Header ''carol'', KeyValue [] ''aws_access_key_id'' ''='' ''CAROLKEY''])"
    and l: "length span' = length [Other ''# rotated'', KeyValue ''  '' ''aws_access_key_id'' '' = '' ''OLD'',
          KeyValue [] ''aws_secret_access_key'' ''='' ''S0'', Other []]
          + (if Some ''aws_secret_access_key'' \<in> set (map key_of [Other ''# rotated'', KeyValue ''  '' ''aws_access_key_id'' '' = '' ''OLD'',
          KeyValue [] ''aws_secret_access_key'' ''='' ''S0'', Other []]) then 0 else 1)"
    and n: "\<forall>i<length [Other ''# rotated'', KeyValue ''  '' ''aws_access_key_id'' '' = '' ''OLD'',
          KeyValue [] ''aws_secret_access_key'' ''='' ''S0'', Other []]. span' ! i =
           (if first_at (map key_of [Other ''# rotated'', KeyValue ''  '' ''aws_access_key_id'' '' = '' ''OLD'',
          KeyValue [] ''aws_secret_access_key'' ''='' ''S0'', Other []]) i (Some ''aws_access_key_id'')
              then set_value ''NEW'' ([Other ''# rotated'', KeyValue ''  '' ''aws_access_key_id'' '' = '' ''OLD'',
          KeyValue [] ''aws_secret_access_key'' ''='' ''S0'', Other []] ! i)
            else if first_at (map key_of [Other ''# rotated'', KeyValue ''  '' ''aws_access_key_id'' '' = '' ''OLD'',
          KeyValue [] ''aws_secret_access_key'' ''='' ''S0'', Other []]) i (Some ''aws_secret_access_key'')
              then set_value ''S1'' ([Other ''# rotated'', KeyValue ''  '' ''aws_access_key_id'' '' = '' ''OLD'',
          KeyValue [] ''aws_secret_access_key'' ''='' ''S0'', Other []] ! i)
            else [Other ''# rotated'', KeyValue ''  '' ''aws_access_key_id'' '' = '' ''OLD'',
          KeyValue [] ''aws_secret_access_key'' ''='' ''S0'', Other []] ! i)"
    using import_credential_frame[where fs = fs and path = "''credentials''"
        and akid = "''NEW''" and sak = "''S1''", OF h1 h2 h3 h4 h5]
    by blast
  have "length span' = 4" using l by simp
  moreover have "span' ! 0 = Other ''# rotated''"
    using n[rule_format, of 0] by (simp add: first_at_def)
  moreover have "span' ! 1 = KeyValue ''  '' ''aws_access_key_id'' '' = '' ''NEW''"
    using n[rule_format, of 1] by (simp add: first_at_def)
  moreover have "span' ! 2 = KeyValue [] ''aws_secret_access_key'' ''='' ''S1''"
    using n[rule_format, of 2] by (simp add: first_at_def)
  moreover have "span' ! 3 = Other []"
    using n[rule_format, of 3] by (simp add: first_at_def)
  moreover have "import_credential (''alice'', ''NEW'', ''S1'') ''credentials''
       [''credentials'' \<mapsto>
        [Other ''# my keys'', Header ''bob'', KeyValue [] ''aws_access_key_id'' ''='' ''BOBKEY'', Other []]
        @ Header ''alice''
        # [Other ''# rotated'', KeyValue ''  '' ''aws_access_key_id'' '' = '' ''OLD'',
          KeyValue [] ''aws_secret_access_key'' ''='' ''S0'', Other []]
        @ [Header ''carol'', KeyValue [] ''aws_access_key_id'' ''='' ''CAROLKEY'']]
     = [''credentials'' \<mapsto>
        [Other ''# my keys'', Header ''bob'', KeyValue [] ''aws_access_key_id'' ''='' ''BOBKEY'', Other []]
        @ Header ''alice'' # span' @ [Header ''carol'', KeyValue [] ''aws_access_key_id'' ''='' ''CAROLKEY'']]"
    using r by (simp add: fs_def)
  ultimately show ?thesis by blast
qed

theorem import_credential_frame_counterexample:
  "import_credential (''alice'', ''NEW'', ''SECRET'') ''credentials''
     [''credentials'' \<mapsto>
        [Header ''alice'', KeyValue [] ''aws_access_key_id'' '' = '' ''OLD'']] ''credentials''
   = Some [Header ''alice'', KeyValue [] ''aws_access_key_id'' '' = '' ''NEW'',
           KeyValue ''  '' ''aws_secret_access_key'' '' = '' ''SECRET'']"
  by (simp add: import_credential_def update_config_def merge_profile_def new_line_def)

end
